theory Spec2Isabelle
  imports Main "HOL-Library.Word"
begin

section \<open>The contract ReverseDutchAuctionSwap\<close>

text \<open>
  A shallow embedding of the Solidity contract \<^verbatim>\<open>ReverseDutchAuctionSwap\<close>
  (\<^verbatim>\<open>pragma solidity ^0.8.20\<close>). Addresses are 160-bit words and \<^verbatim>\<open>uint256\<close>
  is a 256-bit word. Arithmetic in this compiler version is checked: an overflowing
  \<^verbatim>\<open>*\<close> or \<^verbatim>\<open>++\<close> and an underflowing \<^verbatim>\<open>-\<close> abort the call with a panic, and a
  \<^verbatim>\<open>revert("...")\<close> aborts it with its reason string. An aborted call leaves no
  trace: the functions below return \<open>Inl\<close> of the error and no state.
\<close>

type_synonym address = "160 word"
type_synonym uint256 = "256 word"

subsection \<open>Data\<close>

text \<open>The struct \<^verbatim>\<open>Auction\<close>, field by field.\<close>

record Auction =
  seller :: address
  token :: address
  initialPrice :: uint256
  startTime :: uint256
  duration :: uint256
  decayRate :: uint256
  amount :: uint256
  active :: bool

text \<open>The three events, with their arguments in the order of declaration.\<close>

datatype event =
    AuctionCreated uint256 address address uint256 uint256 uint256 uint256
  | AuctionFinalized uint256 address uint256
  | AuctionCancelled uint256

text \<open>
  The calls the contract sends out: \<^verbatim>\<open>token.transferFrom(from, this, amount)\<close>,
  \<^verbatim>\<open>token.transfer(to, amount)\<close> and the native-currency
  \<^verbatim>\<open>payable(to).transfer(amount)\<close>.
\<close>

datatype transfer =
    TokenTransferFrom address address uint256
  | TokenTransfer address address uint256
  | EthTransfer address uint256

datatype error = Revert string | Panic | ExternalRevert

text \<open>
  The state a call works on and that is rolled back when it aborts: the mapping
  \<^verbatim>\<open>auctions\<close> (a Solidity mapping is total: a key never written reads as the
  all-zero struct), the counter \<^verbatim>\<open>auctionCount\<close>, the log of emitted events and the
  log of calls sent out, both in the order of execution.
\<close>

record contract =
  auctions :: "uint256 \<Rightarrow> Auction"
  auctionCount :: uint256
  events :: "event list"
  transfers :: "transfer list"

definition zero_auction :: Auction where
  "zero_auction = \<lparr>seller = 0, token = 0, initialPrice = 0, startTime = 0, duration = 0,
     decayRate = 0, amount = 0, active = False\<rparr>"

definition init_contract :: contract where
  "init_contract = \<lparr>auctions = (\<lambda>_. zero_auction), auctionCount = 0, events = [], transfers = []\<rparr>"

subsection \<open>Checked arithmetic\<close>

definition checked_sub :: "uint256 \<Rightarrow> uint256 \<Rightarrow> error + uint256" where
  "checked_sub a b = (if a < b then Inl Panic else Inr (a - b))"

definition checked_mul :: "uint256 \<Rightarrow> uint256 \<Rightarrow> error + uint256" where
  "checked_mul a b = (if unat a * unat b < 2 ^ 256 then Inr (a * b) else Inl Panic)"

definition checked_inc :: "uint256 \<Rightarrow> error + uint256" where
  "checked_inc a = (if unat a + 1 < 2 ^ 256 then Inr (a + 1) else Inl Panic)"

subsection \<open>Calls that leave the contract\<close>

text \<open>
  A call to the token contract runs code the contract does not control. Seen from the
  contract it ends in one of two ways: it reverts, or it returns a boolean. While it runs
  it may call back into the contract; what these calls leave behind is a function on the
  state. The pair of both is the behaviour of the callee.
\<close>

datatype outcome = Reverted | Returned bool

type_synonym callee = "(contract \<Rightarrow> contract) \<times> outcome"

definition external_call :: "callee \<Rightarrow> transfer \<Rightarrow> contract \<Rightarrow> error + (bool \<times> contract)" where
  "external_call cb t s =
     (case snd cb of
        Reverted \<Rightarrow> Inl ExternalRevert
      | Returned b \<Rightarrow> Inr (b, fst cb (s\<lparr>transfers := transfers s @ [t]\<rparr>)))"

text \<open>
  \<^verbatim>\<open>payable(to).transfer(amount)\<close> forwards 2300 gas, too little for the receiver to
  write storage or to call back with effect, and aborts the call when the receiver does
  not accept. Every \<^verbatim>\<open>buy\<close> brings \<^verbatim>\<open>msg.value\<close> with it and pays out no more than
  that, so the balance of the contract is not modelled.
\<close>

definition send_eth :: "bool \<Rightarrow> address \<Rightarrow> uint256 \<Rightarrow> contract \<Rightarrow> error + contract" where
  "send_eth accepted to amt s =
     (if accepted then Inr (s\<lparr>transfers := transfers s @ [EthTransfer to amt]\<rparr>)
      else Inl ExternalRevert)"

subsection \<open>The functions of the contract\<close>

text \<open>
  \<open>now\<close> is \<^verbatim>\<open>block.timestamp\<close>, \<open>sender\<close> is \<^verbatim>\<open>msg.sender\<close>, \<open>val\<close> is
  \<^verbatim>\<open>msg.value\<close>. \<^verbatim>\<open>x <= 0\<close> is kept as the source writes it.
\<close>

definition createAuction ::
  "callee \<Rightarrow> uint256 \<Rightarrow> address \<Rightarrow> address \<Rightarrow> uint256 \<Rightarrow> uint256 \<Rightarrow> uint256 \<Rightarrow> uint256 \<Rightarrow>
   contract \<Rightarrow> error + (uint256 \<times> contract)" where
  "createAuction cb now sender tok initPrice dur rate amt s =
     (if initPrice \<le> 0 then Inl (Revert ''Invalid initial price'')
      else if dur \<le> 0 then Inl (Revert ''Invalid duration'')
      else if rate \<le> 0 then Inl (Revert ''Invalid decay rate'')
      else if amt \<le> 0 then Inl (Revert ''Invalid amount'')
      else case checked_mul dur rate of
        Inl e \<Rightarrow> Inl e
      | Inr m \<Rightarrow>
          if initPrice \<le> m then Inl (Revert ''Price would reach zero'')
          else case external_call cb (TokenTransferFrom tok sender amt) s of
            Inl e \<Rightarrow> Inl e
          | Inr (_, s1) \<Rightarrow>
              (case checked_inc (auctionCount s1) of
                 Inl e \<Rightarrow> Inl e
               | Inr c \<Rightarrow>
                   let auctionId = auctionCount s1 in
                   Inr (auctionId,
                     s1\<lparr>auctionCount := c,
                        auctions := (auctions s1)(auctionId :=
                          \<lparr>seller = sender, token = tok, initialPrice = initPrice,
                           startTime = now, duration = dur, decayRate = rate,
                           amount = amt, active = True\<rparr>),
                        events := events s1 @
                          [AuctionCreated auctionId sender tok initPrice dur rate amt]\<rparr>)))"

definition getCurrentPrice :: "uint256 \<Rightarrow> uint256 \<Rightarrow> contract \<Rightarrow> error + uint256" where
  "getCurrentPrice now auctionId s =
     (let auction = auctions s auctionId in
      if \<not> active auction then Inl (Revert ''Auction not active'')
      else case checked_sub now (startTime auction) of
        Inl e \<Rightarrow> Inl e
      | Inr elapsedTime \<Rightarrow>
          if elapsedTime \<ge> duration auction then Inr 0
          else case checked_mul elapsedTime (decayRate auction) of
            Inl e \<Rightarrow> Inl e
          | Inr priceDrop \<Rightarrow>
              if priceDrop \<ge> initialPrice auction then Inr 0
              else checked_sub (initialPrice auction) priceDrop)"

text \<open>The assignment \<^verbatim>\<open>auction.active = false\<close> through the storage pointer.\<close>

definition deactivate :: "uint256 \<Rightarrow> contract \<Rightarrow> contract" where
  "deactivate auctionId s =
     s\<lparr>auctions := (auctions s)(auctionId := (auctions s auctionId)\<lparr>active := False\<rparr>)\<rparr>"

text \<open>
  \<^verbatim>\<open>auction\<close> is a storage pointer, so \<^verbatim>\<open>auction.seller\<close> after the token call reads
  the state the token call left.
\<close>

definition buy ::
  "callee \<Rightarrow> bool \<Rightarrow> bool \<Rightarrow> uint256 \<Rightarrow> address \<Rightarrow> uint256 \<Rightarrow> uint256 \<Rightarrow> contract \<Rightarrow>
   error + contract" where
  "buy cb seller_accepts payer_accepts now sender val auctionId s =
     (if \<not> active (auctions s auctionId) then Inl (Revert ''Auction not active'')
      else case getCurrentPrice now auctionId s of
        Inl e \<Rightarrow> Inl e
      | Inr currentPrice \<Rightarrow>
          if currentPrice \<le> 0 then Inl (Revert ''Auction expired'')
          else if val < currentPrice then Inl (Revert ''Insufficient payment'')
          else
            let s1 = deactivate auctionId s in
            case external_call cb
                   (TokenTransfer (token (auctions s1 auctionId)) sender
                      (amount (auctions s1 auctionId))) s1 of
              Inl e \<Rightarrow> Inl e
            | Inr (_, s2) \<Rightarrow>
                (case send_eth seller_accepts (seller (auctions s2 auctionId)) currentPrice s2 of
                   Inl e \<Rightarrow> Inl e
                 | Inr s3 \<Rightarrow>
                     (case (if val > currentPrice
                            then (case checked_sub val currentPrice of
                                    Inl e \<Rightarrow> Inl e
                                  | Inr d \<Rightarrow> send_eth payer_accepts sender d s3)
                            else Inr s3) of
                        Inl e \<Rightarrow> Inl e
                      | Inr s4 \<Rightarrow>
                          Inr (s4\<lparr>events := events s4 @
                                 [AuctionFinalized auctionId sender currentPrice]\<rparr>))))"

definition cancelAuction :: "callee \<Rightarrow> address \<Rightarrow> uint256 \<Rightarrow> contract \<Rightarrow> error + contract" where
  "cancelAuction cb sender auctionId s =
     (if sender \<noteq> seller (auctions s auctionId) then Inl (Revert ''Not seller'')
      else if \<not> active (auctions s auctionId) then Inl (Revert ''Auction not active'')
      else
        let s1 = deactivate auctionId s in
        case external_call cb
               (TokenTransfer (token (auctions s1 auctionId)) (seller (auctions s1 auctionId))
                  (amount (auctions s1 auctionId))) s1 of
          Inl e \<Rightarrow> Inl e
        | Inr (_, s2) \<Rightarrow> Inr (s2\<lparr>events := events s2 @ [AuctionCancelled auctionId]\<rparr>))"

subsection \<open>Callers, reentrant or not\<close>

text \<open>
  A call into the contract, with \<^verbatim>\<open>msg.sender\<close> first. Each call carries what the token
  contract does when the contract calls it: the calls it makes back into the contract
  while it runs, and how it ends. \<open>Buy\<close> also carries whether the seller and the payer
  accept native currency.
\<close>

datatype call =
    CreateAuction address address uint256 uint256 uint256 uint256 token_code
  | Buy address uint256 uint256 token_code bool bool
  | CancelAuction address uint256 token_code
and token_code = TokenCode "call list" outcome

text \<open>
  A caller that is itself a contract can catch the failure of a call it makes: a failed
  call changes nothing and the caller goes on.
\<close>

definition attempt :: "(contract \<Rightarrow> error + contract) \<Rightarrow> contract \<Rightarrow> contract" where
  "attempt f s = (case f s of Inl _ \<Rightarrow> s | Inr s' \<Rightarrow> s')"

definition created :: "error + (uint256 \<times> contract) \<Rightarrow> error + contract" where
  "created r = (case r of Inl e \<Rightarrow> Inl e | Inr (_, s) \<Rightarrow> Inr s)"

primrec dispatch :: "call \<Rightarrow> uint256 \<Rightarrow> contract \<Rightarrow> error + contract"
  and behaviour :: "token_code \<Rightarrow> uint256 \<Rightarrow> callee" where
  "dispatch (CreateAuction sender tok initPrice dur rate amt tc) =
     (\<lambda>now s. created (createAuction (behaviour tc now) now sender tok initPrice dur rate amt s))"
| "dispatch (Buy sender val auctionId tc seller_accepts payer_accepts) =
     (\<lambda>now. buy (behaviour tc now) seller_accepts payer_accepts now sender val auctionId)"
| "dispatch (CancelAuction sender auctionId tc) =
     (\<lambda>now. cancelAuction (behaviour tc now) sender auctionId)"
| "behaviour (TokenCode cs out) =
     (\<lambda>now. (fold (\<lambda>f. attempt (f now)) (map dispatch cs), out))"

text \<open>
  A history of the contract: transactions with their block timestamps, each applied to
  the state the one before left; a transaction that aborts leaves the state as it was.
\<close>

definition run :: "(uint256 \<times> call) list \<Rightarrow> contract \<Rightarrow> contract" where
  "run txs s = fold (\<lambda>(now, c). attempt (dispatch c now)) txs s"

section \<open>Notions used to state the properties\<close>

text \<open>
  The price the specification gives for an auction with initial price \<open>P\<close>, decay rate
  \<open>D\<close> and duration \<open>T\<close> at \<open>t\<close> time units after its start, in unbounded integers.
\<close>

definition currentPrice_spec :: "int \<Rightarrow> int \<Rightarrow> int \<Rightarrow> int \<Rightarrow> int" where
  "currentPrice_spec P D T t = (if t < T then max 0 (P - t * D) else 0)"

text \<open>
  An auction is settled when its id has been handed out and its flag is off. An event
  closes an auction when it reports the sale or the cancellation of that id.
\<close>

definition settled :: "contract \<Rightarrow> uint256 \<Rightarrow> bool" where
  "settled s i \<longleftrightarrow> i < auctionCount s \<and> \<not> active (auctions s i)"

primrec closes :: "uint256 \<Rightarrow> event \<Rightarrow> bool" where
  "closes i (AuctionFinalized j _ _) = (j = i)"
| "closes i (AuctionCancelled j) = (j = i)"
| "closes i (AuctionCreated _ _ _ _ _ _ _) = False"

definition closings :: "contract \<Rightarrow> uint256 \<Rightarrow> event list" where
  "closings s i = filter (closes i) (events s)"

text \<open>
  A record was inserted under an id when the log holds the \<^verbatim>\<open>AuctionCreated\<close> of that
  id: \<^verbatim>\<open>createAuction\<close> is the only writer of records, and it emits the event with
  the id it wrote to.
\<close>

primrec creates :: "uint256 \<Rightarrow> event \<Rightarrow> bool" where
  "creates i (AuctionCreated j _ _ _ _ _ _) = (j = i)"
| "creates i (AuctionFinalized _ _ _) = False"
| "creates i (AuctionCancelled _) = False"

definition inserted :: "contract \<Rightarrow> uint256 \<Rightarrow> bool" where
  "inserted s i \<longleftrightarrow> (\<exists>e \<in> set (events s). creates i e)"

text \<open>
  The invariant of the storage: an id not yet handed out holds the all-zero struct, and
  an active auction passed the validation of \<^verbatim>\<open>createAuction\<close>.
\<close>

definition ok :: "contract \<Rightarrow> bool" where
  "ok s \<longleftrightarrow> (\<forall>i. (auctionCount s \<le> i \<longrightarrow> auctions s i = zero_auction) \<and>
       (active (auctions s i) \<longrightarrow>
          unat (duration (auctions s i)) * unat (decayRate (auctions s i))
            < unat (initialPrice (auctions s i))))"

text \<open>
  What any sequence of calls, nested or not, does to the state: the counter and the log
  of transfers grow, a settled auction keeps its record, one closing event is logged
  for an id exactly when that id becomes settled, and records are inserted under exactly
  the ids the counter passes.
\<close>

definition advances :: "contract \<Rightarrow> contract \<Rightarrow> bool" where
  "advances s s' \<longleftrightarrow> auctionCount s \<le> auctionCount s' \<and> (\<exists>n. transfers s' = transfers s @ n) \<and>
     (\<forall>i. (settled s i \<longrightarrow> auctions s' i = auctions s i) \<and>
          length (closings s' i) =
            length (closings s i) + (if settled s' i \<and> \<not> settled s i then 1 else 0) \<and>
          (inserted s' i \<longleftrightarrow>
             inserted s i \<or> (auctionCount s \<le> i \<and> i < auctionCount s')))"

definition safe :: "(contract \<Rightarrow> contract) \<Rightarrow> bool" where
  "safe g \<longleftrightarrow> (\<forall>s. ok s \<longrightarrow> ok (g s) \<and> advances s (g s))"

subsection \<open>A small history\<close>

text \<open>
  A token that does what it is asked and calls nobody. At time 100 address 1 offers 10
  units of token 7 from 1000 down by 9 per time unit for 100 time units; at time 150
  either address 2 buys with 600 attached, or the seller cancels.
\<close>

definition honest :: token_code where
  "honest = TokenCode [] (Returned True)"

definition demo_open :: contract where
  "demo_open = run [(100, CreateAuction 1 7 1000 100 9 10 honest)] init_contract"

definition demo_sold :: contract where
  "demo_sold = run [(100, CreateAuction 1 7 1000 100 9 10 honest),
                    (150, Buy 2 600 0 honest True True)] init_contract"

definition demo_cancelled :: contract where
  "demo_cancelled = run [(100, CreateAuction 1 7 1000 100 9 10 honest),
                         (150, CancelAuction 1 0 honest)] init_contract"


text \<open>
  A token that, when asked to pay out, first calls back into the contract to buy the same
  auction once more and to cancel it in the seller's name.
\<close>

definition greedy :: token_code where
  "greedy = TokenCode [Buy 2 600 0 honest True True, CancelAuction 1 0 honest] (Returned True)"

text \<open>
  A token whose \<^verbatim>\<open>transferFrom\<close> and \<^verbatim>\<open>transfer\<close> move nothing and say so by
  returning \<^verbatim>\<open>false\<close>, without reverting.
\<close>

definition refusing :: token_code where
  "refusing = TokenCode [] (Returned False)"

text \<open>
  A steep auction: at time 0 address 1 offers 1 unit of token 7 from \<open>2 ^ 202\<close> down by
  \<open>2 ^ 200\<close> per time unit for 2 time units. \<^verbatim>\<open>createAuction\<close> accepts it, since
  \<open>2 * 2 ^ 200 < 2 ^ 202\<close>.
\<close>

definition demo_fast :: contract where
  "demo_fast = run [(0, CreateAuction 1 7 (2 ^ 202) 2 (2 ^ 200) 1 honest)] init_contract"

subsection \<open>The validation of createAuction, as the specification words it\<close>

text \<open>
  The checks in their fixed order, each with the failure it reports, on unbounded
  numbers; between the positivity checks and the comparison stands the overflow of the
  product, which the checked multiplication reports as a panic.
\<close>

definition first_violation :: "uint256 \<Rightarrow> uint256 \<Rightarrow> uint256 \<Rightarrow> uint256 \<Rightarrow> error option" where
  "first_violation initPrice dur rate amt =
     (if initPrice = 0 then Some (Revert ''Invalid initial price'')
      else if dur = 0 then Some (Revert ''Invalid duration'')
      else if rate = 0 then Some (Revert ''Invalid decay rate'')
      else if amt = 0 then Some (Revert ''Invalid amount'')
      else if 2 ^ 256 \<le> unat dur * unat rate then Some Panic
      else if unat initPrice \<le> unat dur * unat rate then Some (Revert ''Price would reach zero'')
      else None)"

section \<open>Lemmas\<close>

subsection \<open>Words\<close>

lemma unat_small: "t < 2 ^ 256 \<Longrightarrow> unat (of_nat t :: uint256) = t"
  by (simp add: of_nat_inverse)

lemma elapsed_of_sum:
  assumes "unat S + t < 2 ^ 256"
  shows "checked_sub (S + of_nat t) S = Inr (of_nat t :: uint256)" and "unat (of_nat t :: uint256) = t"
proof -
  have t: "t < 2 ^ 256" using assms by simp
  show u: "unat (of_nat t :: uint256) = t" using t by (rule unat_small)
  have "unat (S + of_nat t) = unat S + unat (of_nat t :: uint256)"
    using assms u by (simp add: unat_add_lem [THEN iffD1])
  then have "S \<le> S + of_nat t" by (simp add: word_le_nat_alt)
  then show "checked_sub (S + of_nat t) S = Inr (of_nat t :: uint256)"
    by (simp add: checked_sub_def not_less [symmetric])
qed

lemma price_at:
  assumes act: "active (auctions s i)"
    and elapsed: "checked_sub now (startTime (auctions s i)) = Inr e"
    and nov: "unat e < unat (duration (auctions s i)) \<longrightarrow> unat e * unat (decayRate (auctions s i)) < 2 ^ 256"
  shows "\<exists>p. getCurrentPrice now i s = Inr p \<and>
    uint p = currentPrice_spec (uint (initialPrice (auctions s i))) (uint (decayRate (auctions s i)))
               (uint (duration (auctions s i))) (uint e)"
proof (cases "unat e < unat (duration (auctions s i))")
  case False
  then have "duration (auctions s i) \<le> e" by (simp add: word_le_nat_alt)
  moreover have "\<not> uint e < uint (duration (auctions s i))"
    using False by (simp add: word_less_nat_alt [symmetric] word_less_def)
  ultimately show ?thesis using act elapsed
    by (simp add: getCurrentPrice_def currentPrice_spec_def)
next
  case True
  let ?a = "auctions s i"
  from True nov have small: "unat e * unat (decayRate ?a) < 2 ^ 256" by simp
  then have drop: "unat (e * decayRate ?a) = unat e * unat (decayRate ?a)"
    by (simp add: unat_mult_lem [THEN iffD1])
  have nle: "\<not> duration ?a \<le> e" using True by (simp add: word_le_nat_alt)
  have lt: "uint e < uint (duration ?a)" using True by (simp add: word_less_nat_alt [symmetric] word_less_def)
  have udrop: "uint (e * decayRate ?a) = uint e * uint (decayRate ?a)"
    using drop by (metis of_nat_mult uint_nat) 
  show ?thesis
  proof (cases "initialPrice ?a \<le> e * decayRate ?a")
    case True
    then have "uint (initialPrice ?a) \<le> uint e * uint (decayRate ?a)"
      using udrop by (simp add: word_le_def)
    then show ?thesis using act elapsed nle lt small True
      by (simp add: getCurrentPrice_def currentPrice_spec_def checked_mul_def)
  next
    case False
    then have less: "e * decayRate ?a < initialPrice ?a" by simp
    then have "uint (initialPrice ?a - e * decayRate ?a) = uint (initialPrice ?a) - uint e * uint (decayRate ?a)"
      using udrop by (simp add: uint_sub_if_size word_less_def word_le_def)
    moreover have "uint e * uint (decayRate ?a) < uint (initialPrice ?a)"
      using less udrop by (simp add: word_less_def)
    ultimately show ?thesis using act elapsed nle lt small False less
      by (simp add: getCurrentPrice_def currentPrice_spec_def checked_mul_def checked_sub_def Let_def)
  qed
qed

lemma spec_antimono: "0 \<le> D \<Longrightarrow> t \<le> t' \<Longrightarrow> currentPrice_spec P D T t' \<le> currentPrice_spec P D T t"
proof -
  assume D: "0 \<le> D" and le: "t \<le> t'"
  then have "t * D \<le> t' * D" by (rule_tac mult_right_mono)
  then show ?thesis using le by (auto simp: currentPrice_spec_def max_def)
qed

subsection \<open>The invariant under every call\<close>

lemma advances_refl: "advances s s"
  by (auto simp: advances_def)

lemma advances_settled: "advances s s' \<Longrightarrow> settled s i \<Longrightarrow> settled s' i"
  by (auto simp: advances_def settled_def)

lemma advances_trans:
  assumes a: "advances s s'" and b: "advances s' s''"
  shows "advances s s''"
proof -
  have cnt: "auctionCount s \<le> auctionCount s''"
    using a b by (auto simp: advances_def)
  have tr: "\<exists>n. transfers s'' = transfers s @ n"
    using a b by (auto simp: advances_def)
  have ins: "inserted s'' i \<longleftrightarrow>
      inserted s i \<or> (auctionCount s \<le> i \<and> i < auctionCount s'')" for i
  proof -
    have 1: "inserted s' i \<longleftrightarrow> inserted s i \<or> (auctionCount s \<le> i \<and> i < auctionCount s')"
      using a by (simp add: advances_def)
    have 2: "inserted s'' i \<longleftrightarrow> inserted s' i \<or> (auctionCount s' \<le> i \<and> i < auctionCount s'')"
      using b by (simp add: advances_def)
    have "auctionCount s \<le> auctionCount s'" "auctionCount s' \<le> auctionCount s''"
      using a b by (simp_all add: advances_def)
    then show ?thesis unfolding 2 1 by auto
  qed
  have each: "(settled s i \<longrightarrow> auctions s'' i = auctions s i) \<and>
          length (closings s'' i) =
            length (closings s i) + (if settled s'' i \<and> \<not> settled s i then 1 else 0)" for i
  proof -
    have m1: "settled s i \<Longrightarrow> settled s' i" using a by (rule advances_settled)
    have m2: "settled s' i \<Longrightarrow> settled s'' i" using b by (rule advances_settled)
    have r1: "settled s i \<Longrightarrow> auctions s' i = auctions s i" using a by (simp add: advances_def)
    have r2: "settled s' i \<Longrightarrow> auctions s'' i = auctions s' i" using b by (simp add: advances_def)
    have c1: "length (closings s' i) =
            length (closings s i) + (if settled s' i \<and> \<not> settled s i then 1 else 0)"
      using a by (simp add: advances_def)
    have c2: "length (closings s'' i) =
            length (closings s' i) + (if settled s'' i \<and> \<not> settled s' i then 1 else 0)"
      using b by (simp add: advances_def)
    show ?thesis
    proof (cases "settled s i")
      case True
      then show ?thesis using m1 m2 r1 r2 c1 c2 by simp
    next
      case False
      note ns = this
      show ?thesis
      proof (cases "settled s' i")
        case True
        then show ?thesis using ns m2 c1 c2 by simp
      next
        case False
        then show ?thesis using ns c1 c2 by simp
      qed
    qed
  qed
  show ?thesis unfolding advances_def
    by (intro conjI allI) (fact cnt, fact tr, simp add: each, simp add: each, fact ins)
qed

lemma safe_fold: "(\<And>x. x \<in> set xs \<Longrightarrow> safe (h x)) \<Longrightarrow> safe (fold h xs)"
proof (induction xs)
  case Nil
  show ?case by (simp add: safe_def advances_refl)
next
  case (Cons x xs)
  have hx: "safe (h x)" using Cons.prems by simp
  have rest: "safe (fold h xs)" using Cons by simp
  show ?case unfolding safe_def
  proof (intro allI impI)
    fix s assume "ok s"
    then have 1: "ok (h x s)" "advances s (h x s)" using hx by (simp_all add: safe_def)
    then have 2: "ok (fold h xs (h x s))" "advances (h x s) (fold h xs (h x s))"
      using rest by (simp_all add: safe_def)
    show "ok (fold h (x # xs) s) \<and> advances s (fold h (x # xs) s)"
      using 1 2 advances_trans by auto
  qed
qed


lemma buy_Inr:
  assumes "buy cb sa pa now a v i s = Inr s'"
  shows "\<exists>p b s2. active (auctions s i) \<and> getCurrentPrice now i s = Inr p \<and> 0 < p \<and> p \<le> v \<and>
     snd cb = Returned b \<and>
     s2 = fst cb ((deactivate i s)\<lparr>transfers := transfers s @
            [TokenTransfer (token (auctions s i)) a (amount (auctions s i))]\<rparr>) \<and>
     s' = s2\<lparr>transfers := transfers s2 @ EthTransfer (seller (auctions s2 i)) p #
                 (if p < v then [EthTransfer a (v - p)] else []),
             events := events s2 @ [AuctionFinalized i a p]\<rparr>"
  using assms
  by (auto simp: buy_def external_call_def send_eth_def checked_sub_def deactivate_def Let_def
        word_gt_0 not_less
      split: if_splits sum.splits outcome.splits prod.splits)

lemma cancelAuction_Inr:
  assumes "cancelAuction cb a i s = Inr s'"
  shows "\<exists>b s2. active (auctions s i) \<and> a = seller (auctions s i) \<and> snd cb = Returned b \<and>
     s2 = fst cb ((deactivate i s)\<lparr>transfers := transfers s @
            [TokenTransfer (token (auctions s i)) (seller (auctions s i)) (amount (auctions s i))]\<rparr>) \<and>
     s' = s2\<lparr>events := events s2 @ [AuctionCancelled i]\<rparr>"
  using assms
  by (auto simp: cancelAuction_def external_call_def deactivate_def Let_def
      split: if_splits sum.splits outcome.splits prod.splits)

lemma createAuction_Inr:
  assumes "createAuction cb now a tok P T D amt s = Inr (i, s')"
  shows "\<exists>b s2. unat T * unat D < unat P \<and> snd cb = Returned b \<and>
     s2 = fst cb (s\<lparr>transfers := transfers s @ [TokenTransferFrom tok a amt]\<rparr>) \<and>
     unat (auctionCount s2) + 1 < 2 ^ 256 \<and> i = auctionCount s2 \<and>
     s' = s2\<lparr>auctionCount := auctionCount s2 + 1,
             auctions := (auctions s2)(auctionCount s2 :=
               \<lparr>seller = a, token = tok, initialPrice = P, startTime = now, duration = T,
                decayRate = D, amount = amt, active = True\<rparr>),
             events := events s2 @ [AuctionCreated (auctionCount s2) a tok P T D amt]\<rparr>"
  using assms
  by (auto simp: createAuction_def external_call_def checked_mul_def checked_inc_def Let_def
        not_le word_less_nat_alt unat_mult_lem [THEN iffD1]
      split: if_splits sum.splits outcome.splits prod.splits)


lemma ok_logs [simp]: "ok (s\<lparr>transfers := ts\<rparr>) = ok s" "ok (s\<lparr>events := es\<rparr>) = ok s"
  by (simp_all add: ok_def)

lemma ok_deactivate: "ok s \<Longrightarrow> ok (deactivate i s)"
  by (simp add: ok_def deactivate_def zero_auction_def)

lemma ok_active_less: "ok s \<Longrightarrow> active (auctions s i) \<Longrightarrow> i < auctionCount s"
  by (rule ccontr) (simp add: ok_def zero_auction_def not_less)

lemma closing_step:
  assumes ok: "ok s" and act: "active (auctions s i)"
    and s1: "auctions s1 = (auctions s)(i := (auctions s i)\<lparr>active := False\<rparr>)"
      "auctionCount s1 = auctionCount s" "events s1 = events s" "transfers s1 = transfers s @ ts"
    and adv: "advances s1 s2"
    and s': "auctions s' = auctions s2" "auctionCount s' = auctionCount s2"
      "events s' = events s2 @ [e]" "transfers s' = transfers s2 @ ts'"
    and e: "\<And>j. closes j e \<longleftrightarrow> j = i" "\<And>j. \<not> creates j e"
  shows "advances s s'"
proof -
  have less: "i < auctionCount s" using ok act by (rule ok_active_less)
  have cnt: "auctionCount s \<le> auctionCount s'"
    using adv s1 s' by (simp add: advances_def)
  have tr: "\<exists>n. transfers s' = transfers s @ n"
    using adv s1 s' by (auto simp: advances_def)
  have each: "(settled s j \<longrightarrow> auctions s' j = auctions s j) \<and>
          length (closings s' j) =
            length (closings s j) + (if settled s' j \<and> \<not> settled s j then 1 else 0)" for j
  proof (cases "j = i")
    case True
    have a: "\<not> settled s i" using act by (simp add: settled_def)
    have b: "settled s1 i" using less s1 by (simp add: settled_def)
    then have c: "settled s2 i" using adv by (rule advances_settled [rotated])
    then have d: "settled s' i" using s' by (simp add: settled_def)
    have "length (closings s2 i) = length (closings s1 i)"
      using adv b c by (simp add: advances_def)
    then have "length (closings s' i) = length (closings s i) + 1"
      using s1 s' e by (simp add: closings_def)
    then show ?thesis using True a d by simp
  next
    case False
    then have same: "settled s1 j = settled s j" "auctions s1 j = auctions s j"
      using s1 by (simp_all add: settled_def)
    have fin: "settled s' j = settled s2 j" using s' by (simp add: settled_def)
    have "length (closings s2 j) =
            length (closings s1 j) + (if settled s2 j \<and> \<not> settled s1 j then 1 else 0)"
      using adv by (simp add: advances_def)
    then have len: "length (closings s' j) =
            length (closings s j) + (if settled s' j \<and> \<not> settled s j then 1 else 0)"
      using s1 s' e False same fin by (simp add: closings_def)
    have "settled s1 j \<longrightarrow> auctions s2 j = auctions s1 j"
      using adv by (simp add: advances_def)
    then show ?thesis using len same s' by simp
  qed
  have ins: "inserted s' j \<longleftrightarrow>
      inserted s j \<or> (auctionCount s \<le> j \<and> j < auctionCount s')" for j
  proof -
    have "inserted s2 j \<longleftrightarrow> inserted s1 j \<or> (auctionCount s1 \<le> j \<and> j < auctionCount s2)"
      using adv by (simp add: advances_def)
    moreover have "inserted s' j = inserted s2 j" "inserted s1 j = inserted s j"
      using s1(3) s'(3) e(2) by (simp_all add: inserted_def)
    ultimately show ?thesis by (simp add: s1(2) s'(2))
  qed
  show ?thesis unfolding advances_def
    by (intro conjI allI) (fact cnt, fact tr, simp add: each, simp add: each, fact ins)
qed

lemma safe_buy:
  assumes cb: "safe (fst cb)"
  shows "safe (attempt (buy cb sa pa now a v i))"
  unfolding safe_def
proof (intro allI impI)
  fix s assume ok: "ok s"
  show "ok (attempt (buy cb sa pa now a v i) s) \<and> advances s (attempt (buy cb sa pa now a v i) s)"
  proof (cases "buy cb sa pa now a v i s")
    case (Inl e)
    then show ?thesis using ok by (simp add: attempt_def advances_refl)
  next
    case (Inr s')
    from buy_Inr [OF Inr] obtain p b s2 where act: "active (auctions s i)"
      and s2: "s2 = fst cb ((deactivate i s)\<lparr>transfers := transfers s @
            [TokenTransfer (token (auctions s i)) a (amount (auctions s i))]\<rparr>)"
      and s': "s' = s2\<lparr>transfers := transfers s2 @ EthTransfer (seller (auctions s2 i)) p #
                 (if p < v then [EthTransfer a (v - p)] else []),
             events := events s2 @ [AuctionFinalized i a p]\<rparr>"
      by blast
    let ?s1 = "(deactivate i s)\<lparr>transfers := transfers s @
            [TokenTransfer (token (auctions s i)) a (amount (auctions s i))]\<rparr>"
    have "ok ?s1" using ok by (simp add: ok_deactivate)
    then have 2: "ok s2" "advances ?s1 s2" using cb s2 by (simp_all add: safe_def)
    have "advances s s'"
      by (rule closing_step [OF ok act _ _ _ _ 2(2), where e = "AuctionFinalized i a p"])
        (auto simp: s' deactivate_def)
    moreover have "ok s'" using 2(1) by (simp add: s')
    ultimately show ?thesis using Inr by (simp add: attempt_def)
  qed
qed

lemma safe_cancelAuction:
  assumes cb: "safe (fst cb)"
  shows "safe (attempt (cancelAuction cb a i))"
  unfolding safe_def
proof (intro allI impI)
  fix s assume ok: "ok s"
  show "ok (attempt (cancelAuction cb a i) s) \<and> advances s (attempt (cancelAuction cb a i) s)"
  proof (cases "cancelAuction cb a i s")
    case (Inl e)
    then show ?thesis using ok by (simp add: attempt_def advances_refl)
  next
    case (Inr s')
    from cancelAuction_Inr [OF Inr] obtain b s2 where act: "active (auctions s i)"
      and s2: "s2 = fst cb ((deactivate i s)\<lparr>transfers := transfers s @
            [TokenTransfer (token (auctions s i)) (seller (auctions s i)) (amount (auctions s i))]\<rparr>)"
      and s': "s' = s2\<lparr>events := events s2 @ [AuctionCancelled i]\<rparr>"
      by blast
    let ?s1 = "(deactivate i s)\<lparr>transfers := transfers s @
            [TokenTransfer (token (auctions s i)) (seller (auctions s i)) (amount (auctions s i))]\<rparr>"
    have "ok ?s1" using ok by (simp add: ok_deactivate)
    then have 2: "ok s2" "advances ?s1 s2" using cb s2 by (simp_all add: safe_def)
    have "advances s s'"
      by (rule closing_step [OF ok act _ _ _ _ 2(2), where e = "AuctionCancelled i" and ts' = "[]"])
        (auto simp: s' deactivate_def)
    moreover have "ok s'" using 2(1) by (simp add: s')
    ultimately show ?thesis using Inr by (simp add: attempt_def)
  qed
qed


lemma safe_createAuction:
  assumes cb: "safe (fst cb)"
  shows "safe (attempt (\<lambda>s. created (createAuction cb now a tok P T D amt s)))"
  unfolding safe_def
proof (intro allI impI)
  fix s assume ok: "ok s"
  let ?f = "\<lambda>s. created (createAuction cb now a tok P T D amt s)"
  show "ok (attempt ?f s) \<and> advances s (attempt ?f s)"
  proof (cases "createAuction cb now a tok P T D amt s")
    case (Inl e)
    then show ?thesis using ok by (simp add: attempt_def created_def advances_refl)
  next
    case (Inr r)
    obtain i s' where r: "r = (i, s')" by (cases r)
    from createAuction_Inr [OF Inr [unfolded r]] obtain b s2
      where valid: "unat T * unat D < unat P"
      and s2: "s2 = fst cb (s\<lparr>transfers := transfers s @ [TokenTransferFrom tok a amt]\<rparr>)"
      and room: "unat (auctionCount s2) + 1 < 2 ^ 256"
      and s': "s' = s2\<lparr>auctionCount := auctionCount s2 + 1,
             auctions := (auctions s2)(auctionCount s2 :=
               \<lparr>seller = a, token = tok, initialPrice = P, startTime = now, duration = T,
                decayRate = D, amount = amt, active = True\<rparr>),
             events := events s2 @ [AuctionCreated (auctionCount s2) a tok P T D amt]\<rparr>"
      by blast
    let ?s1 = "s\<lparr>transfers := transfers s @ [TokenTransferFrom tok a amt]\<rparr>"
    have 01: "advances s ?s1"
      by (auto simp: advances_def settled_def closings_def inserted_def)
    have "ok ?s1" using ok by simp
    then have 2: "ok s2" "advances ?s1 s2" using cb s2 by (simp_all add: safe_def)
    have next_count: "unat (auctionCount s2 + 1) = unat (auctionCount s2) + 1"
      using room by (simp add: unat_add_lem [THEN iffD1])
    then have below: "j < auctionCount s2 + 1 \<longleftrightarrow> j < auctionCount s2 \<or> j = auctionCount s2" for j
      by (auto simp: word_less_nat_alt word_unat_eq_iff)
    have ok': "ok s'"
      using 2(1) valid below unfolding ok_def s' by (auto simp: not_less [symmetric])
    have 23: "advances s2 s'"
      unfolding advances_def using below
      by (auto simp: s' settled_def closings_def inserted_def word_le_less_eq)
    have "advances s s'" using 01 2(2) 23 by (blast intro: advances_trans)
    then show ?thesis using ok' Inr r by (simp add: attempt_def created_def)
  qed
qed

lemma safe_dispatch: "safe (attempt (dispatch c now))"
  and safe_behaviour: "safe (fst (behaviour tc now))"
proof (induction c and tc arbitrary: now and now)
  case (CreateAuction a tok P T D amt tc)
  then show ?case by (simp add: safe_createAuction)
next
  case (Buy a v i tc sa pa)
  then show ?case by (simp add: safe_buy)
next
  case (CancelAuction a i tc)
  then show ?case by (simp add: safe_cancelAuction)
next
  case (TokenCode cs out)
  have "safe (fold (\<lambda>c. attempt (dispatch c now)) cs)"
    by (rule safe_fold) (rule TokenCode)
  then show ?case by (simp add: fold_map comp_def)
qed

lemma safe_run: "safe (run txs)"
proof -
  have "safe (fold (\<lambda>(now, c). attempt (dispatch c now)) txs)"
    by (rule safe_fold) (auto simp: safe_dispatch)
  then show ?thesis by (simp add: run_def [abs_def])
qed

lemma ok_init: "ok init_contract"
  by (simp add: ok_def init_contract_def zero_auction_def)

lemma reachable_ok: "ok (run txs init_contract)"
  using safe_run [of txs] ok_init by (simp add: safe_def)


lemma reachable_inserted:
  "inserted (run txs init_contract) i \<longleftrightarrow> i < auctionCount (run txs init_contract)"
proof -
  have "advances init_contract (run txs init_contract)"
    using safe_run [of txs] ok_init by (simp add: safe_def)
  moreover have "\<not> inserted init_contract i" "auctionCount init_contract = 0"
    by (simp_all add: inserted_def init_contract_def)
  ultimately show ?thesis by (simp add: advances_def)
qed

lemma closed_after:
  assumes ok: "ok s" and act: "active (auctions s i)" and g: "safe g"
  shows "auctions (g ((deactivate i s)\<lparr>transfers := ts\<rparr>)) i = (auctions s i)\<lparr>active := False\<rparr>"
    and "settled (g ((deactivate i s)\<lparr>transfers := ts\<rparr>)) i"
    and "ok (g ((deactivate i s)\<lparr>transfers := ts\<rparr>))"
    and "advances ((deactivate i s)\<lparr>transfers := ts\<rparr>) (g ((deactivate i s)\<lparr>transfers := ts\<rparr>))"
proof -
  let ?s1 = "(deactivate i s)\<lparr>transfers := ts\<rparr>"
  have less: "i < auctionCount s" using ok act by (rule ok_active_less)
  have ok1: "ok ?s1" using ok by (simp add: ok_deactivate)
  then show adv: "advances ?s1 (g ?s1)" and "ok (g ?s1)" using g by (simp_all add: safe_def)
  have st: "settled ?s1 i" using less by (simp add: settled_def deactivate_def)
  then show "settled (g ?s1) i" using adv by (rule advances_settled [rotated])
  have "auctions (g ?s1) i = auctions ?s1 i" using adv st by (simp add: advances_def)
  then show "auctions (g ?s1) i = (auctions s i)\<lparr>active := False\<rparr>"
    by (simp add: deactivate_def)
qed

lemma first_close:
  assumes ok: "ok s"
    and first: "buy (behaviour tc now) sa pa now a v i s = Inr s' \<or>
                cancelAuction (behaviour tc now) a i s = Inr s'"
  shows "active (auctions s i)" and "auctions s' i = (auctions s i)\<lparr>active := False\<rparr>"
    and "settled s' i" and "ok s'"
proof -
  let ?g = "fst (behaviour tc now)"
  have g: "safe ?g" by (rule safe_behaviour)
  have "active (auctions s i) \<and> auctions s' i = (auctions s i)\<lparr>active := False\<rparr> \<and>
        settled s' i \<and> ok s'"
    using first
  proof
    assume "buy (behaviour tc now) sa pa now a v i s = Inr s'"
    from buy_Inr [OF this] obtain p s2 where act: "active (auctions s i)"
      and s2: "s2 = ?g ((deactivate i s)\<lparr>transfers := transfers s @
            [TokenTransfer (token (auctions s i)) a (amount (auctions s i))]\<rparr>)"
      and s': "s' = s2\<lparr>transfers := transfers s2 @ EthTransfer (seller (auctions s2 i)) p #
                 (if p < v then [EthTransfer a (v - p)] else []),
             events := events s2 @ [AuctionFinalized i a p]\<rparr>"
      by blast
    have "auctions s2 i = (auctions s i)\<lparr>active := False\<rparr>" "settled s2 i" "ok s2"
      unfolding s2 by (rule closed_after [OF ok act g])+
    then show ?thesis using act by (simp add: s' settled_def)
  next
    assume "cancelAuction (behaviour tc now) a i s = Inr s'"
    from cancelAuction_Inr [OF this] obtain s2 where act: "active (auctions s i)"
      and s2: "s2 = ?g ((deactivate i s)\<lparr>transfers := transfers s @
            [TokenTransfer (token (auctions s i)) (seller (auctions s i))
               (amount (auctions s i))]\<rparr>)"
      and s': "s' = s2\<lparr>events := events s2 @ [AuctionCancelled i]\<rparr>"
      by blast
    have "auctions s2 i = (auctions s i)\<lparr>active := False\<rparr>" "settled s2 i" "ok s2"
      unfolding s2 by (rule closed_after [OF ok act g])+
    then show ?thesis using act by (simp add: s' settled_def)
  qed
  then show "active (auctions s i)" and "auctions s' i = (auctions s i)\<lparr>active := False\<rparr>"
    and "settled s' i" and "ok s'" by simp_all
qed


subsection \<open>The small history, evaluated\<close>

lemmas eval = run_def attempt_def created_def createAuction_def buy_def cancelAuction_def
  getCurrentPrice_def checked_sub_def checked_mul_def checked_inc_def external_call_def
  send_eth_def deactivate_def init_contract_def honest_def Let_def

lemma demo_open_eq:
  "demo_open = \<lparr>auctions = (\<lambda>_. zero_auction)(0 := \<lparr>seller = 1, token = 7,
      initialPrice = 1000, startTime = 100, duration = 100, decayRate = 9, amount = 10,
      active = True\<rparr>),
    auctionCount = 1, events = [AuctionCreated 0 1 7 1000 100 9 10],
    transfers = [TokenTransferFrom 7 1 10]\<rparr>"
  by (simp add: demo_open_def eval)

lemma demo_sold_eq:
  "demo_sold = \<lparr>auctions = (\<lambda>_. zero_auction)(0 := \<lparr>seller = 1, token = 7,
      initialPrice = 1000, startTime = 100, duration = 100, decayRate = 9, amount = 10,
      active = False\<rparr>),
    auctionCount = 1, events = [AuctionCreated 0 1 7 1000 100 9 10, AuctionFinalized 0 2 550],
    transfers = [TokenTransferFrom 7 1 10, TokenTransfer 7 2 10, EthTransfer 1 550,
      EthTransfer 2 50]\<rparr>"
  by (simp add: demo_sold_def eval)

lemma demo_cancelled_eq:
  "demo_cancelled = \<lparr>auctions = (\<lambda>_. zero_auction)(0 := \<lparr>seller = 1, token = 7,
      initialPrice = 1000, startTime = 100, duration = 100, decayRate = 9, amount = 10,
      active = False\<rparr>),
    auctionCount = 1, events = [AuctionCreated 0 1 7 1000 100 9 10, AuctionCancelled 0],
    transfers = [TokenTransferFrom 7 1 10, TokenTransfer 7 1 10]\<rparr>"
  by (simp add: demo_cancelled_def eval)

lemma demo_fast_eq:
  "demo_fast = \<lparr>auctions = (\<lambda>_. zero_auction)(0 := \<lparr>seller = 1, token = 7,
      initialPrice = 2 ^ 202, startTime = 0, duration = 2, decayRate = 2 ^ 200, amount = 1,
      active = True\<rparr>),
    auctionCount = 1, events = [AuctionCreated 0 1 7 (2 ^ 202) 2 (2 ^ 200) 1],
    transfers = [TokenTransferFrom 7 1 1]\<rparr>"
  by (simp add: demo_fast_def eval)

lemma demo_buy: "buy (behaviour honest 150) True True 150 2 600 0 demo_open = Inr demo_sold"
  by (simp add: demo_open_eq demo_sold_eq eval)

lemma demo_cancel: "cancelAuction (behaviour honest 150) 1 0 demo_open = Inr demo_cancelled"
  by (simp add: demo_open_eq demo_cancelled_eq eval)

text \<open>The calls the greedy token makes back are turned away: the sale ends as the honest one.\<close>

lemma demo_greedy:
  "run [(100, CreateAuction 1 7 1000 100 9 10 honest), (150, Buy 2 600 0 greedy True True)]
     init_contract = demo_sold"
  by (simp add: demo_sold_eq greedy_def eval)

subsection \<open>Further facts\<close>

lemma createAuction_reverting_token:
  "snd cb = Reverted \<Longrightarrow> \<exists>e. createAuction cb now a tok P T D amt s = Inl e"
  by (simp add: createAuction_def external_call_def split: sum.splits)

text \<open>
  The calls a successful \<^verbatim>\<open>buy\<close> sends, in their order: \<^verbatim>\<open>token.transfer\<close> of the
  escrowed amount to the payer, the price \<open>p\<close> to the seller and, only when \<open>p < v\<close>,
  the refund \<open>v - p\<close> to the payer; \<open>n\<close> are the transfers of the calls the token code
  made back into the contract.
\<close>

lemma buy_calls_sent:
  assumes reach: "s = run txs init_contract"
    and bought: "buy (behaviour tc now) sa pa now a v i s = Inr s'"
  shows "\<exists>p n. getCurrentPrice now i s = Inr p \<and> p \<le> v \<and>
      transfers s' = transfers s @
        TokenTransfer (token (auctions s i)) a (amount (auctions s i)) # n @
        EthTransfer (seller (auctions s i)) p #
        (if p < v then [EthTransfer a (v - p)] else []) \<and>
      (\<forall>out. tc = TokenCode [] out \<longrightarrow> n = [])"
proof -
  have ok: "ok s" unfolding reach by (rule reachable_ok)
  let ?t = "TokenTransfer (token (auctions s i)) a (amount (auctions s i))"
  let ?s1 = "(deactivate i s)\<lparr>transfers := transfers s @ [?t]\<rparr>"
  from buy_Inr [OF bought] obtain p s2 where act: "active (auctions s i)"
    and p: "getCurrentPrice now i s = Inr p" "p \<le> v"
    and s2: "s2 = fst (behaviour tc now) ?s1"
    and s': "s' = s2\<lparr>transfers := transfers s2 @ EthTransfer (seller (auctions s2 i)) p #
                 (if p < v then [EthTransfer a (v - p)] else []),
             events := events s2 @ [AuctionFinalized i a p]\<rparr>"
    by blast
  note ca = closed_after [OF ok act safe_behaviour, where ts = "transfers s @ [?t]"
      and tc1 = tc and now1 = now]
  have sel: "seller (auctions s2 i) = seller (auctions s i)" using ca(1) by (simp add: s2)
  define n where "n = drop (length (transfers ?s1)) (transfers s2)"
  have "\<exists>m. transfers s2 = transfers ?s1 @ m" using ca(4) by (simp add: s2 advances_def)
  then have grow: "transfers s2 = transfers ?s1 @ n" by (auto simp: n_def)
  have quiet: "n = []" if "tc = TokenCode [] out" for out
    using that by (simp add: n_def s2)
  have "transfers s' = transfers s @ ?t # n @ EthTransfer (seller (auctions s i)) p #
        (if p < v then [EthTransfer a (v - p)] else [])"
    using grow sel by (simp add: s')
  then show ?thesis using p quiet by blast
qed

lemma reachable_no_overflow:
  assumes "s = run txs init_contract" and "active (auctions s i)"
    and "e < duration (auctions s i)"
  shows "unat e * unat (decayRate (auctions s i)) < 2 ^ 256"
proof -
  have "ok s" unfolding assms(1) by (rule reachable_ok)
  then have "unat (duration (auctions s i)) * unat (decayRate (auctions s i))
      < unat (initialPrice (auctions s i))"
    using assms(2) by (simp add: ok_def)
  moreover have "unat e * unat (decayRate (auctions s i))
      \<le> unat (duration (auctions s i)) * unat (decayRate (auctions s i))"
    using assms(3) by (intro mult_right_mono) (simp_all add: word_less_nat_alt)
  moreover have "unat (initialPrice (auctions s i)) < 2 ^ 256"
    using unsigned_less [of "initialPrice (auctions s i)"] by simp
  ultimately show ?thesis by linarith
qed

section \<open>The claims\<close>




text \<open>
  C2. For an active auction with initial price \<open>P\<close>, decay rate \<open>D\<close>, duration \<open>T\<close>
  and start \<open>S\<close>, at the times \<open>S + t\<close> and \<open>S + t'\<close> with \<open>t \<le> t'\<close>, none of
  \<open>S + t'\<close>, \<open>t * D\<close> (for \<open>t < T\<close>) and \<open>t' * D\<close> (for \<open>t' < T\<close>) overflowing:
  \<^verbatim>\<open>getCurrentPrice\<close> returns \<open>max 0 (P - t * D)\<close> when \<open>t < T\<close> and 0 when
  \<open>t \<ge> T\<close>, and the price at the later time is not above the price at the earlier one.
\<close>

theorem getCurrentPrice_decay:
  assumes act: "active (auctions s i)"
    and range: "unat (startTime (auctions s i)) + t' < 2 ^ 256"
    and le: "t \<le> t'"
    and novf: "t < unat (duration (auctions s i)) \<longrightarrow> t * unat (decayRate (auctions s i)) < 2 ^ 256"
    and novf': "t' < unat (duration (auctions s i)) \<longrightarrow> t' * unat (decayRate (auctions s i)) < 2 ^ 256"
  shows "\<exists>p p'.
      getCurrentPrice (startTime (auctions s i) + of_nat t) i s = Inr p \<and>
      getCurrentPrice (startTime (auctions s i) + of_nat t') i s = Inr p' \<and>
      uint p = currentPrice_spec (uint (initialPrice (auctions s i)))
                 (uint (decayRate (auctions s i))) (uint (duration (auctions s i))) (int t) \<and>
      uint p' = currentPrice_spec (uint (initialPrice (auctions s i)))
                 (uint (decayRate (auctions s i))) (uint (duration (auctions s i))) (int t') \<and>
      p' \<le> p"
proof -
  let ?a = "auctions s i"
  have range0: "unat (startTime ?a) + t < 2 ^ 256" using range le by simp
  note e = elapsed_of_sum [OF range0] and e' = elapsed_of_sum [OF range]
  have u: "uint (of_nat t :: uint256) = int t" "uint (of_nat t' :: uint256) = int t'"
    using e(2) e'(2) by (simp_all add: uint_nat)
  from price_at [OF act e(1)] novf e(2) u obtain p
    where p: "getCurrentPrice (startTime ?a + of_nat t) i s = Inr p"
      "uint p = currentPrice_spec (uint (initialPrice ?a)) (uint (decayRate ?a))
                  (uint (duration ?a)) (int t)"
    by auto
  from price_at [OF act e'(1)] novf' e'(2) u obtain p'
    where p': "getCurrentPrice (startTime ?a + of_nat t') i s = Inr p'"
      "uint p' = currentPrice_spec (uint (initialPrice ?a)) (uint (decayRate ?a))
                  (uint (duration ?a)) (int t')"
    by auto
  have "uint p' \<le> uint p"
    unfolding p(2) p'(2) using le by (intro spec_antimono) simp_all
  then have "p' \<le> p" by (simp add: word_le_def)
  then show ?thesis using p p' by blast
qed

theorem getCurrentPrice_decay_witness:
  "getCurrentPrice 150 0 demo_open = Inr 550 \<and> getCurrentPrice 160 0 demo_open = Inr 460 \<and>
   currentPrice_spec 1000 9 100 50 = 550 \<and> currentPrice_spec 1000 9 100 60 = 460"
proof -
  have a: "active (auctions demo_open 0)" by (simp add: demo_open_eq)
  have b: "unat (startTime (auctions demo_open 0)) + 60 < 2 ^ 256" by (simp add: demo_open_eq)
  have c: "(50 :: nat) \<le> 60" by simp
  have d: "50 < unat (duration (auctions demo_open 0)) \<longrightarrow>
           50 * unat (decayRate (auctions demo_open 0)) < 2 ^ 256"
    by (simp add: demo_open_eq)
  have e: "60 < unat (duration (auctions demo_open 0)) \<longrightarrow>
           60 * unat (decayRate (auctions demo_open 0)) < 2 ^ 256"
    by (simp add: demo_open_eq)
  from getCurrentPrice_decay [OF a b c d e] obtain p p' where
    "getCurrentPrice (startTime (auctions demo_open 0) + of_nat 50) 0 demo_open = Inr p"
    "getCurrentPrice (startTime (auctions demo_open 0) + of_nat 60) 0 demo_open = Inr p'"
    "uint p = currentPrice_spec (uint (initialPrice (auctions demo_open 0)))
                 (uint (decayRate (auctions demo_open 0))) (uint (duration (auctions demo_open 0))) (int 50)"
    "uint p' = currentPrice_spec (uint (initialPrice (auctions demo_open 0)))
                 (uint (decayRate (auctions demo_open 0))) (uint (duration (auctions demo_open 0))) (int 60)"
    by blast
  then show ?thesis
    by (simp add: demo_open_eq currentPrice_spec_def) (simp add: eval)
qed

text \<open>
  C3 (the code departs from the claim). The token refuses the pull-in by returning
  \<^verbatim>\<open>false\<close>; \<^verbatim>\<open>createAuction\<close> drops the returned boolean, stores the auction,
  advances the counter and emits \<^verbatim>\<open>AuctionCreated\<close>. Only a refusal by revert makes
  \<^verbatim>\<open>createAuction\<close> fail (\<open>createAuction_reverting_token\<close>).
\<close>

theorem createAuction_unchecked_return:
  "createAuction (behaviour refusing 100) 100 1 7 1000 100 9 10 init_contract =
     Inr (0, \<lparr>auctions = (\<lambda>_. zero_auction)(0 := \<lparr>seller = 1, token = 7,
         initialPrice = 1000, startTime = 100, duration = 100, decayRate = 9, amount = 10,
         active = True\<rparr>),
       auctionCount = 1, events = [AuctionCreated 0 1 7 1000 100 9 10],
       transfers = [TokenTransferFrom 7 1 10]\<rparr>)"
  by (simp add: refusing_def eval)

text \<open>
  C4 (the code departs from the claim). The auction of the small history is open and the
  tokens are in escrow. At the sale \<^verbatim>\<open>token.transfer\<close> moves nothing and returns
  \<^verbatim>\<open>false\<close>; \<^verbatim>\<open>buy\<close> drops the returned boolean and succeeds: the seller is paid
  the price 550, the payer is refunded 50, \<^verbatim>\<open>AuctionFinalized\<close> is emitted, and the
  payer has received none of the escrowed amount. The amounts of the calls are as the
  claim says (\<open>buy_calls_sent\<close>); that the token call took effect is never checked.
\<close>

theorem buy_unchecked_return:
  "snd (behaviour refusing 150) = Returned False \<and>
   buy (behaviour refusing 150) True True 150 2 600 0 demo_open =
     Inr \<lparr>auctions = (\<lambda>_. zero_auction)(0 := \<lparr>seller = 1, token = 7,
         initialPrice = 1000, startTime = 100, duration = 100, decayRate = 9, amount = 10,
         active = False\<rparr>),
       auctionCount = 1,
       events = [AuctionCreated 0 1 7 1000 100 9 10, AuctionFinalized 0 2 550],
       transfers = [TokenTransferFrom 7 1 10, TokenTransfer 7 2 10, EthTransfer 1 550,
         EthTransfer 2 50]\<rparr>"
  by (simp add: demo_open_eq refusing_def eval)

text \<open>
  Against C5 as stated: all four parameters are positive and the initial price is below
  the product, yet the failure is the panic of the multiplication.
\<close>

theorem createAuction_overflow_counterexample:
  "createAuction (behaviour honest 100) 100 1 7 1 (2 ^ 128) (2 ^ 128) 1 init_contract = Inl Panic"
  by (simp add: eval)

text \<open>
  C5 (amended). \<^verbatim>\<open>createAuction\<close> fails with the failure of the first violated
  check, in the order initial price, duration, decay rate, amount, comparison, and stores
  nothing. With all four parameters positive and \<open>initialPrice \<le> duration * decayRate\<close>
  it fails with "Price would reach zero" when the product fits 256 bits, and with a panic
  when it does not.
\<close>

theorem createAuction_validation:
  assumes "first_violation P T D amt = Some e"
  shows "createAuction cb now a tok P T D amt s = Inl e \<and>
         run [(now, CreateAuction a tok P T D amt tc)] s = s \<and>
         (0 < P \<and> 0 < T \<and> 0 < D \<and> 0 < amt \<and> unat P \<le> unat T * unat D \<longrightarrow>
            e = (if unat T * unat D < 2 ^ 256 then Revert ''Price would reach zero''
                 else Panic))"
proof -
  have m: "unat T * unat D < 2 ^ 256 \<Longrightarrow> (P \<le> T * D) = (unat P \<le> unat T * unat D)"
    by (simp add: word_le_nat_alt unat_mult_lem [THEN iffD1])
  have "createAuction cb now a tok P T D amt s = Inl e" for cb
    using assms m
    by (auto simp: first_violation_def createAuction_def checked_mul_def not_le
        split: if_splits)
  moreover have "e = (if unat T * unat D < 2 ^ 256 then Revert ''Price would reach zero''
                 else Panic)"
    if "0 < P \<and> 0 < T \<and> 0 < D \<and> 0 < amt \<and> unat P \<le> unat T * unat D"
    using that assms by (auto simp: first_violation_def split: if_splits)
  ultimately show ?thesis by (simp add: run_def attempt_def created_def)
qed

theorem createAuction_validation_witness:
  "first_violation 500 100 5 10 = Some (Revert ''Price would reach zero'') \<and>
   createAuction (behaviour honest 100) 100 1 7 500 100 5 10 init_contract =
     Inl (Revert ''Price would reach zero'') \<and>
   run [(100, CreateAuction 1 7 500 100 5 10 honest)] init_contract = init_contract"
proof -
  have v: "first_violation 500 100 5 10 = Some (Revert ''Price would reach zero'')"
    by (simp add: first_violation_def)
  show ?thesis using v createAuction_validation [OF v] by simp
qed

text \<open>
  Against C6 as stated: on an id never handed out both functions fail with
  "Auction not active".
\<close>

theorem never_inserted_counterexample:
  "getCurrentPrice 100 5 init_contract = Inl (Revert ''Auction not active'') \<and>
   buy (behaviour honest 100) True True 100 2 600 5 init_contract = Inl (Revert ''Auction not active'')"
  by (simp add: eval zero_auction_def)

text \<open>
  C6 (amended). The contract has no failure of its own for an unknown id. In a state the
  contract can reach, on an id under which no record was ever inserted,
  \<^verbatim>\<open>getCurrentPrice\<close> and \<^verbatim>\<open>buy\<close> fail with "Auction not active", the failure of
  an auction that was sold or cancelled.
\<close>

theorem never_inserted_not_active:
  assumes "s = run txs init_contract" and "\<not> inserted s i"
  shows "getCurrentPrice now i s = Inl (Revert ''Auction not active'') \<and>
         buy cb sa pa now a v i s = Inl (Revert ''Auction not active'')"
proof -
  have "ok s" unfolding assms(1) by (rule reachable_ok)
  moreover have "auctionCount s \<le> i"
    using assms(2) reachable_inserted [of txs i] by (simp add: assms(1) not_less)
  ultimately have "auctions s i = zero_auction" by (simp add: ok_def)
  then show ?thesis by (simp add: getCurrentPrice_def buy_def zero_auction_def)
qed

theorem never_inserted_not_active_witness:
  "\<not> inserted demo_open 1 \<and>
   getCurrentPrice 150 1 demo_open = Inl (Revert ''Auction not active'') \<and>
   buy (behaviour honest 150) True True 150 2 600 1 demo_open = Inl (Revert ''Auction not active'')"
proof -
  have r: "demo_open = run [(100, CreateAuction 1 7 1000 100 9 10 honest)] init_contract"
    by (simp add: demo_open_def)
  have c: "\<not> inserted demo_open 1" by (simp add: demo_open_eq inserted_def)
  show ?thesis using c never_inserted_not_active [OF r c] by simp
qed

text \<open>
  Against C7 as stated: the auction is cancelled, the caller is not the seller, and the
  failure is "Not seller".
\<close>

theorem cancel_not_active_counterexample:
  "\<not> active (auctions demo_cancelled 0) \<and>
   cancelAuction (behaviour honest 160) 2 0 demo_cancelled = Inl (Revert ''Not seller'')"
  by (simp add: demo_cancelled_eq eval)

text \<open>
  C7 (amended). \<^verbatim>\<open>cancelAuction\<close> checks the seller first: it fails with
  "Not seller" exactly when the caller differs from the stored seller, whatever the
  status, and with "Auction not active" exactly when the caller is the stored seller
  and the auction is not active.
\<close>

theorem cancelAuction_check_order:
  "(cancelAuction cb a i s = Inl (Revert ''Not seller'') \<longleftrightarrow> a \<noteq> seller (auctions s i)) \<and>
   (cancelAuction cb a i s = Inl (Revert ''Auction not active'') \<longleftrightarrow>
      a = seller (auctions s i) \<and> \<not> active (auctions s i))"
  by (auto simp: cancelAuction_def external_call_def Let_def
      split: sum.splits outcome.splits prod.splits)

theorem cancelAuction_check_order_witness:
  "cancelAuction (behaviour honest 160) 1 0 demo_cancelled = Inl (Revert ''Auction not active'') \<and>
   1 = seller (auctions demo_cancelled 0) \<and> \<not> active (auctions demo_cancelled 0)"
  using cancelAuction_check_order [of "behaviour honest 160" 1 0 demo_cancelled]
  by (simp add: demo_cancelled_eq)

text \<open>
  C8. For an active auction in a state the contract can reach, at a time not before its
  start: when the product of the elapsed time and the decay rate does not fit 256 bits,
  \<^verbatim>\<open>getCurrentPrice\<close> returns 0. Such an elapsed time is not below the duration, so
  the function returns before it multiplies, and no wrapped price is produced.
\<close>

theorem getCurrentPrice_overflow_zero:
  assumes reach: "s = run txs init_contract"
    and act: "active (auctions s i)"
    and started: "startTime (auctions s i) \<le> now"
    and ovf: "2 ^ 256 \<le> unat (now - startTime (auctions s i)) * unat (decayRate (auctions s i))"
  shows "getCurrentPrice now i s = Inr 0"
proof -
  let ?e = "now - startTime (auctions s i)"
  have "\<not> ?e < duration (auctions s i)"
  proof
    assume "?e < duration (auctions s i)"
    from reachable_no_overflow [OF reach act this] ovf show False by simp
  qed
  then have "duration (auctions s i) \<le> ?e" by (simp add: not_less)
  then show ?thesis
    using act started by (simp add: getCurrentPrice_def checked_sub_def not_less [symmetric])
qed

theorem getCurrentPrice_overflow_zero_witness:
  "active (auctions demo_fast 0) \<and>
   2 ^ 256 \<le> unat (2 ^ 64 - startTime (auctions demo_fast 0)) *
                unat (decayRate (auctions demo_fast 0)) \<and>
   getCurrentPrice (2 ^ 64) 0 demo_fast = Inr 0"
proof -
  have r: "demo_fast = run [(0, CreateAuction 1 7 (2 ^ 202) 2 (2 ^ 200) 1 honest)] init_contract"
    by (simp add: demo_fast_def)
  have a: "active (auctions demo_fast 0)" by (simp add: demo_fast_eq)
  have b: "startTime (auctions demo_fast 0) \<le> 2 ^ 64" by (simp add: demo_fast_eq)
  have c: "2 ^ 256 \<le> unat (2 ^ 64 - startTime (auctions demo_fast 0)) *
             unat (decayRate (auctions demo_fast 0))"
    by (simp add: demo_fast_eq)
  show ?thesis using a c getCurrentPrice_overflow_zero [OF r a b c] by simp
qed

text \<open>
  Against C9 as stated: the record after the sale equals the record after the
  cancellation.
\<close>

theorem terminal_record_counterexample:
  "buy (behaviour honest 150) True True 150 2 600 0 demo_open = Inr demo_sold \<and>
   cancelAuction (behaviour honest 150) 1 0 demo_open = Inr demo_cancelled \<and>
   auctions demo_sold 0 = auctions demo_cancelled 0"
  by (simp add: demo_buy demo_cancel) (simp add: demo_sold_eq demo_cancelled_eq)

text \<open>
  C9 (amended). The struct has the boolean \<^verbatim>\<open>active\<close> and no status: the record a
  successful \<^verbatim>\<open>buy\<close> leaves and the record a successful \<^verbatim>\<open>cancelAuction\<close> leaves
  for the same auction are equal, the record before with the flag off. What tells the two
  apart is the event logged last, \<^verbatim>\<open>AuctionFinalized\<close> or \<^verbatim>\<open>AuctionCancelled\<close>.
\<close>

theorem terminal_record_same:
  assumes reach: "s = run txs init_contract"
    and bought: "buy (behaviour tc now) sa pa now a v i s = Inr s1"
    and cancelled: "cancelAuction (behaviour tc' now') a' i s = Inr s2"
  shows "auctions s1 i = auctions s2 i \<and>
         auctions s1 i = (auctions s i)\<lparr>active := False\<rparr> \<and>
         (\<exists>p. last (events s1) = AuctionFinalized i a p) \<and>
         last (events s2) = AuctionCancelled i"
proof -
  have ok: "ok s" unfolding reach by (rule reachable_ok)
  have 1: "auctions s1 i = (auctions s i)\<lparr>active := False\<rparr>"
    using first_close(2) [OF ok disjI1, OF bought] .
  have 2: "auctions s2 i = (auctions s i)\<lparr>active := False\<rparr>"
    using first_close(2) [OF ok disjI2, OF cancelled] .
  have 3: "\<exists>p. last (events s1) = AuctionFinalized i a p"
    using buy_Inr [OF bought] by auto
  have 4: "last (events s2) = AuctionCancelled i"
    using cancelAuction_Inr [OF cancelled] by auto
  show ?thesis using 1 2 3 4 by simp
qed

theorem terminal_record_same_witness:
  "auctions demo_sold 0 = auctions demo_cancelled 0 \<and>
   last (events demo_sold) = AuctionFinalized 0 2 550 \<and>
   last (events demo_cancelled) = AuctionCancelled 0"
proof -
  have r: "demo_open = run [(100, CreateAuction 1 7 1000 100 9 10 honest)] init_contract"
    by (simp add: demo_open_def)
  from terminal_record_same [OF r demo_buy demo_cancel]
  have "auctions demo_sold 0 = auctions demo_cancelled 0" by simp
  then show ?thesis by (simp add: demo_sold_eq demo_cancelled_eq)
qed

text \<open>
  C10. When \<^verbatim>\<open>getCurrentPrice\<close> is asked about an active auction at a time before
  its start, the subtraction \<^verbatim>\<open>block.timestamp - auction.startTime\<close> underflows and
  the call fails with a panic; no price is returned.
\<close>

theorem getCurrentPrice_before_start:
  "active (auctions s i) \<Longrightarrow> now < startTime (auctions s i) \<Longrightarrow>
   getCurrentPrice now i s = Inl Panic"
  by (simp add: getCurrentPrice_def checked_sub_def)

theorem getCurrentPrice_before_start_witness:
  "active (auctions demo_open 0) \<and> (50 :: uint256) < startTime (auctions demo_open 0) \<and>
   getCurrentPrice 50 0 demo_open = Inl Panic"
proof -
  have a: "active (auctions demo_open 0)" by (simp add: demo_open_eq)
  have b: "(50 :: uint256) < startTime (auctions demo_open 0)" by (simp add: demo_open_eq)
  show ?thesis using a b getCurrentPrice_before_start [OF a b] by simp
qed

end
